theory Spec2Isabelle
  imports Main
begin

section \<open>Checkers: the board (board.js) and the rules (rules.js)\<close>

text \<open>
  A shallow embedding of the JavaScript sources. Row and column numbers, sizes and
  directions are JavaScript numbers used as integers; they are \<open>int\<close> here.

  Checker objects are mutable and shared: the grid holds references to them, and the same
  object can be referenced from several cells. The model therefore keeps an explicit store
  \<open>checkers\<close> from references to objects, and grid cells hold references.
\<close>

subsection \<open>checker.js and boardEvent.js\<close>

type_synonym ref = nat

text \<open>
  \<open>Checker(color, isKing)\<close> stores \<open>color\<close> (any string: a colour other than red or
  black only raises a dialog) and \<open>isKing\<close>, and leaves \<open>row\<close> and \<open>col\<close> undefined.
  Only \<open>Board.add\<close> and \<open>Board.moveTo\<close> assign \<open>row\<close> and \<open>col\<close>, always both, so the two
  fields are one optional pair \<open>loc\<close>: \<open>None\<close> while both are undefined,
  \<open>Some (row, col)\<close> afterwards.
\<close>

record Checker =
  color :: string
  isKing :: bool
  loc :: "(int \<times> int) option"

definition newChecker :: "string \<Rightarrow> bool \<Rightarrow> Checker" where
  "newChecker c k = \<lparr>color = c, isKing = k, loc = None\<rparr>"

text \<open>
  The \<open>details\<close> objects built in board.js, by the keys they carry:
  \<open>{checker, row, col}\<close> (add, remove), \<open>{checker, toRow, toCol, fromRow, fromCol}\<close> (move)
  and \<open>{checker}\<close> (promote).
\<close>

datatype details =
    AtSquare ref int int
  | FromTo ref int int int int
  | OnlyChecker ref

record BoardEvent =
  type :: string
  details :: details

subsection \<open>board.js: representation\<close>

text \<open>
  \<open>square[row][col]\<close> is a Checker reference or undefined (\<open>None\<close>). The constructor creates
  the row arrays \<open>square[0] .. square[boardSize]\<close> (its loop runs while \<open>i <= boardSize\<close>) and
  no method adds or removes a row, so \<open>square[r]\<close> is an array exactly when \<open>rowExists\<close> holds
  and indexing any other row throws a TypeError. A row array accepts any column key.

  \<open>dispatchBoardEvent\<close> hands a new BoardEvent to the listeners of its type. Listeners are
  outside the model; the model records the sequence of dispatches in \<open>dispatched\<close>, each
  with the store and the grid as a listener sees them at that moment.
\<close>

record Dispatch =
  event :: BoardEvent
  checkersThen :: "ref \<Rightarrow> Checker"
  squareThen :: "int \<times> int \<Rightarrow> ref option"

record state =
  boardSize :: int
  square :: "int \<times> int \<Rightarrow> ref option"
  checkers :: "ref \<Rightarrow> Checker"
  dispatched :: "Dispatch list"

datatype error = TypeError | RangeError

definition rowExists :: "state \<Rightarrow> int \<Rightarrow> bool" where
  "rowExists s r = (0 \<le> r \<and> r \<le> boardSize s)"

text \<open>
  \<open>new Board(size)\<close>, given the store of Checker objects as it is: \<open>new Array(size)\<close>
  throws a RangeError for a negative size and for a size above \<open>2^32 - 1\<close>.
\<close>

definition Board :: "(ref \<Rightarrow> Checker) \<Rightarrow> int \<Rightarrow> error + state" where
  "Board objs n =
     (if n < 0 \<or> n > 4294967295 then Inl RangeError
      else Inr \<lparr>boardSize = n, square = (\<lambda>_. None), checkers = objs, dispatched = []\<rparr>)"

text \<open>
  \<open>checkRep\<close> asserts, for every cell of every row array that holds a checker, that the
  checker's row and col are the cell's. \<open>assertTrue\<close> only opens a dialog when the
  condition fails and returns; dialogs are outside the model, so \<open>checkRep\<close> is the
  condition it asserts and leaves the state as it is.
\<close>

definition checkRep :: "state \<Rightarrow> bool" where
  "checkRep s =
     (\<forall>r c p. rowExists s r \<and> square s (r, c) = Some p \<longrightarrow> loc (checkers s p) = Some (r, c))"

definition isValidLocation :: "state \<Rightarrow> int \<Rightarrow> int \<Rightarrow> bool" where
  "isValidLocation s row col =
     (if row < 0 \<or> col < 0 \<or> row \<ge> boardSize s \<or> col \<ge> boardSize s then False else True)"

text \<open>
  \<open>getCheckerAt\<close> returns \<open>square[row][col]\<close> inside the bounds and falls off its end
  (undefined) outside; a row inside the bounds always exists.
\<close>

definition getCheckerAt :: "state \<Rightarrow> int \<Rightarrow> int \<Rightarrow> ref option" where
  "getCheckerAt s row col = (if isValidLocation s row col then square s (row, col) else None)"

definition isEmptyLocation :: "state \<Rightarrow> int \<Rightarrow> int \<Rightarrow> bool" where
  "isEmptyLocation s row col =
     (case getCheckerAt s row col of Some p \<Rightarrow> False | None \<Rightarrow> True)"

definition getLocationOf :: "state \<Rightarrow> ref \<Rightarrow> (int \<times> int) option" where
  "getLocationOf s checker = loc (checkers s checker)"

subsection \<open>board.js: events and mutators\<close>

definition dispatchBoardEvent :: "state \<Rightarrow> string \<Rightarrow> details \<Rightarrow> state" where
  "dispatchBoardEvent s ty d =
     s\<lparr>dispatched := dispatched s @
          [\<lparr>event = \<lparr>type = ty, details = d\<rparr>, checkersThen = checkers s, squareThen = square s\<rparr>]\<rparr>"

definition setLoc :: "state \<Rightarrow> ref \<Rightarrow> int \<Rightarrow> int \<Rightarrow> state" where
  "setLoc s checker row col =
     s\<lparr>checkers := (checkers s)(checker := (checkers s checker)\<lparr>loc := Some (row, col)\<rparr>)\<rparr>"

text \<open>
  A mutator returns the new state, or the TypeError it throws together with the state at
  the throw (an exception undoes nothing). \<open>add\<close> assigns \<open>checker.row\<close> and \<open>checker.col\<close>
  before it indexes \<open>square[row]\<close>.
\<close>

definition add :: "state \<Rightarrow> ref \<Rightarrow> int \<Rightarrow> int \<Rightarrow> (error \<times> state) + state" where
  "add s checker row col =
     (if isEmptyLocation s row col then
        let s1 = setLoc s checker row col in
        if \<not> rowExists s1 row then Inl (TypeError, s1)
        else
          let s2 = s1\<lparr>square := (square s1)((row, col) := Some checker)\<rparr>
          in Inr (dispatchBoardEvent s2 ''add'' (AtSquare checker row col))
      else Inr s)"

definition canBeKing :: "state \<Rightarrow> ref \<Rightarrow> int \<Rightarrow> int \<Rightarrow> bool" where
  "canBeKing s checker row col =
     (if color (checkers s checker) = ''red'' then row = boardSize s - 1 else row = 0)"

definition promote :: "state \<Rightarrow> ref \<Rightarrow> state" where
  "promote s checker =
     dispatchBoardEvent
       (s\<lparr>checkers := (checkers s)(checker := (checkers s checker)\<lparr>isKing := True\<rparr>)\<rparr>)
       ''promote'' (OnlyChecker checker)"

text \<open>
  \<open>moveTo\<close>: \<open>delete this.square[checker.row][checker.col]\<close> throws when \<open>checker.row\<close> is
  undefined or names no row; \<open>this.square[toRow][toCol] = checker\<close> throws when \<open>toRow\<close>
  names no row. The promotion runs before \<open>checker.row\<close> and \<open>checker.col\<close> are assigned.
\<close>

definition moveTo :: "state \<Rightarrow> ref \<Rightarrow> int \<Rightarrow> int \<Rightarrow> (error \<times> state) + state" where
  "moveTo s checker toRow toCol =
     (if isEmptyLocation s toRow toCol then
        (case loc (checkers s checker) of
           None \<Rightarrow> Inl (TypeError, s)
         | Some (fromRow, fromCol) \<Rightarrow>
             if \<not> rowExists s fromRow then Inl (TypeError, s)
             else
               let s1 = s\<lparr>square := (square s)((fromRow, fromCol) := None)\<rparr> in
               if \<not> rowExists s1 toRow then Inl (TypeError, s1)
               else
                 let s2 = s1\<lparr>square := (square s1)((toRow, toCol) := Some checker)\<rparr>;
                     s3 = (if canBeKing s2 checker toRow toCol then promote s2 checker else s2);
                     s4 = setLoc s3 checker toRow toCol
                 in Inr (dispatchBoardEvent s4 ''move''
                           (FromTo checker toRow toCol fromRow fromCol)))
      else Inr s)"

text \<open>
  \<open>remove\<close> is called by rules.js on the result of \<open>getCheckerAt\<close>, which may be undefined:
  reading \<open>checker.row\<close> of undefined throws. \<open>remove\<close> leaves the checker's row and col as
  they are.
\<close>

definition remove :: "state \<Rightarrow> ref option \<Rightarrow> (error \<times> state) + state" where
  "remove s checker =
     (case checker of
        None \<Rightarrow> Inl (TypeError, s)
      | Some p \<Rightarrow>
          (case loc (checkers s p) of
             None \<Rightarrow> Inl (TypeError, s)
           | Some (row, col) \<Rightarrow>
               if \<not> rowExists s row then Inl (TypeError, s)
               else
                 Inr (dispatchBoardEvent (s\<lparr>square := (square s)((row, col) := None)\<rparr>)
                        ''remove'' (AtSquare p row col))))"

subsection \<open>rules.js: moves and jumps\<close>

text \<open>
  A jump \<open>{killedCol, killedRow, col, row}\<close>: the square jumped over and the landing square.
  An entry of a move's \<open>remove\<close> list is \<open>{row, col, color, isKing}\<close> (fields \<open>r_row\<close>,
  \<open>r_col\<close>, \<open>r_color\<close>, \<open>r_isKing\<close>). A move is \<open>{to_col, to_row, remove}\<close>; the key
  \<open>remove\<close> is the field \<open>remove_list\<close>, since \<open>remove\<close> is the board's method here.
  \<open>makeMove\<close> returns the move object it chose with the keys \<open>from_col\<close>, \<open>from_row\<close> and
  \<open>made_king\<close> added: a record extension.
\<close>

record jump =
  killedCol :: int
  killedRow :: int
  col :: int
  row :: int

record removed =
  r_row :: int
  r_col :: int
  r_color :: string
  r_isKing :: bool

record move =
  to_col :: int
  to_row :: int
  remove_list :: "removed list"

record result = move +
  from_col :: int
  from_row :: int
  made_king :: bool

text \<open>A loop whose body may throw: the first error ends it.\<close>

fun mapE :: "('a \<Rightarrow> error + 'b) \<Rightarrow> 'a list \<Rightarrow> error + 'b list" where
  "mapE f [] = Inr []"
| "mapE f (x # xs) =
     (case f x of
        Inl e \<Rightarrow> Inl e
      | Inr y \<Rightarrow> (case mapE f xs of Inl e \<Rightarrow> Inl e | Inr ys \<Rightarrow> Inr (y # ys)))"

text \<open>
  \<open>isValidJump\<close>: the midpoint \<open>(toRow+fromRow)/2\<close> is read only after both distances
  were found to be 2, so the division is exact. The last two checks read the same cell:
  an empty midpoint fails the first, a checker of the mover's colour fails the second.
\<close>

definition isValidJump :: "state \<Rightarrow> ref \<Rightarrow> int \<Rightarrow> int \<Rightarrow> int \<Rightarrow> int \<Rightarrow> int \<Rightarrow> bool" where
  "isValidJump s checker fromRow fromCol toRow toCol playerDirection =
     (if \<not> isValidLocation s toRow toCol then False
      else if \<not> isEmptyLocation s toRow toCol then False
      else if (toRow - fromRow) * playerDirection < 0 \<and> \<not> isKing (checkers s checker) then False
      else if \<bar>toRow - fromRow\<bar> \<noteq> 2 then False
      else if \<bar>toCol - fromCol\<bar> \<noteq> 2 then False
      else
        (case getCheckerAt s ((toRow + fromRow) div 2) ((toCol + fromCol) div 2) of
           None \<Rightarrow> False
         | Some p \<Rightarrow> if color (checkers s p) = color (checkers s checker) then False else True))"

text \<open>\<open>alreadyJumpedPiece\<close>: the loop sets a flag at every match and never clears it.\<close>

definition alreadyJumpedPiece :: "jump list \<Rightarrow> int \<Rightarrow> int \<Rightarrow> bool" where
  "alreadyJumpedPiece jumpSeq r c =
     fold (\<lambda>j alreadyJumped. if c = killedCol j \<and> r = killedRow j then True else alreadyJumped)
       jumpSeq False"

definition copyJumpSequence :: "jump list \<Rightarrow> jump list" where
  "copyJumpSequence jumpSeq = fold (\<lambda>j newJumpSeq. newJumpSeq @ [j]) jumpSeq []"

definition possibleDestinations :: "int \<Rightarrow> int \<Rightarrow> (int \<times> int) list" where
  "possibleDestinations curRow curCol =
     [(curRow + 2, curCol + 2), (curRow + 2, curCol - 2),
      (curRow - 2, curCol + 2), (curRow - 2, curCol - 2)]"

definition jumped :: "int \<Rightarrow> int \<Rightarrow> int \<Rightarrow> int \<Rightarrow> jump" where
  "jumped curRow curCol toRow toCol =
     \<lparr>killedCol = (curCol + toCol) div 2, killedRow = (curRow + toRow) div 2,
      col = toCol, row = toRow\<rparr>"

text \<open>
  The squares inside the bounds that no jump of the sequence has captured: the quantity
  that shrinks at every recursive call of \<open>validJumpsFor\<close>.
\<close>

definition uncaptured :: "state \<Rightarrow> jump list \<Rightarrow> (int \<times> int) set" where
  "uncaptured s jumpSeq =
     ({0..<boardSize s} \<times> {0..<boardSize s}) - set (map (\<lambda>j. (killedRow j, killedCol j)) jumpSeq)"

lemma alreadyJumpedPiece_iff:
  "alreadyJumpedPiece jumpSeq r c \<longleftrightarrow>
     (r, c) \<in> set (map (\<lambda>j. (killedRow j, killedCol j)) jumpSeq)"
proof -
  have "fold (\<lambda>j alreadyJumped. if c = killedCol j \<and> r = killedRow j then True else alreadyJumped) js b
        \<longleftrightarrow> b \<or> (r, c) \<in> set (map (\<lambda>j. (killedRow j, killedCol j)) js)" for js b
    by (induction js arbitrary: b) auto
  from this [of jumpSeq False] show ?thesis unfolding alreadyJumpedPiece_def by simp
qed

lemma copyJumpSequence_id [simp]: "copyJumpSequence jumpSeq = jumpSeq"
proof -
  have "fold (\<lambda>j newJumpSeq. newJumpSeq @ [j]) js acc = acc @ js" for js and acc :: "jump list"
    by (induction js arbitrary: acc) auto
  then show ?thesis by (simp add: copyJumpSequence_def)
qed

lemma isValidJump_midpoint:
  assumes "isValidJump s checker fromRow fromCol toRow toCol d"
  shows "isValidLocation s ((toRow + fromRow) div 2) ((toCol + fromCol) div 2)"
    and "getCheckerAt s ((toRow + fromRow) div 2) ((toCol + fromCol) div 2) \<noteq> None"
  using assms
  by (auto simp: isValidJump_def getCheckerAt_def split: if_splits option.splits)

lemma uncaptured_shrinks:
  assumes "isValidLocation s kr kc" and "\<not> alreadyJumpedPiece jumpSeq kr kc"
    and "killedRow j = kr" and "killedCol j = kc"
  shows "card (uncaptured s (jumpSeq @ [j])) < card (uncaptured s jumpSeq)"
proof -
  have fin: "finite (uncaptured s jumpSeq)" by (simp add: uncaptured_def)
  have mem: "(kr, kc) \<in> uncaptured s jumpSeq"
    using assms(1,2)
    by (auto simp: uncaptured_def isValidLocation_def alreadyJumpedPiece_iff split: if_splits)
  have "uncaptured s (jumpSeq @ [j]) = uncaptured s jumpSeq - {(kr, kc)}"
    using assms(3,4) by (auto simp: uncaptured_def)
  with card_Diff1_less [OF fin mem] show ?thesis by simp
qed

text \<open>
  \<open>validJumpsFor\<close>: for each of the four destinations in turn, a valid jump over a square
  not yet in \<open>jumpSeq\<close> first appends the sequences of the recursive call from the landing
  square, then the sequence that stops there. The globals \<open>j\<close> of the two inner loops are
  reset before each use and not read across a call.
\<close>

function validJumpsFor ::
  "state \<Rightarrow> ref \<Rightarrow> int \<Rightarrow> jump list \<Rightarrow> int \<Rightarrow> int \<Rightarrow> jump list list" where
  "validJumpsFor s checker playerDirection jumpSeq curRow curCol =
     concat (map (\<lambda>dest.
        if isValidJump s checker curRow curCol (fst dest) (snd dest) playerDirection then
          if \<not> alreadyJumpedPiece jumpSeq
                 (killedRow (jumped curRow curCol (fst dest) (snd dest)))
                 (killedCol (jumped curRow curCol (fst dest) (snd dest))) then
            validJumpsFor s checker playerDirection
              (copyJumpSequence jumpSeq @ [jumped curRow curCol (fst dest) (snd dest)])
              (fst dest) (snd dest)
            @ [copyJumpSequence jumpSeq @ [jumped curRow curCol (fst dest) (snd dest)]]
          else []
        else [])
      (possibleDestinations curRow curCol))"
  by pat_completeness auto
termination
proof (relation "measure (\<lambda>(s, checker, playerDirection, jumpSeq, curRow, curCol).
                            card (uncaptured s jumpSeq))")
  show "wf (measure (\<lambda>(s, checker, playerDirection, jumpSeq, curRow, curCol).
                            card (uncaptured s jumpSeq)))"
    by simp
next
  fix s :: state and checker :: ref and playerDirection :: int and jumpSeq :: "jump list"
    and curRow curCol :: int and dest :: "int \<times> int"
  assume valid: "isValidJump s checker curRow curCol (fst dest) (snd dest) playerDirection"
    and fresh: "\<not> alreadyJumpedPiece jumpSeq
                 (killedRow (jumped curRow curCol (fst dest) (snd dest)))
                 (killedCol (jumped curRow curCol (fst dest) (snd dest)))"
  have "isValidLocation s (killedRow (jumped curRow curCol (fst dest) (snd dest)))
          (killedCol (jumped curRow curCol (fst dest) (snd dest)))"
    using isValidJump_midpoint(1) [OF valid] by (simp add: jumped_def add.commute)
  from uncaptured_shrinks [OF this fresh refl refl]
  show "((s, checker, playerDirection,
          copyJumpSequence jumpSeq @ [jumped curRow curCol (fst dest) (snd dest)],
          fst dest, snd dest),
         (s, checker, playerDirection, jumpSeq, curRow, curCol))
        \<in> measure (\<lambda>(s, checker, playerDirection, jumpSeq, curRow, curCol).
                      card (uncaptured s jumpSeq))"
    by simp
qed

declare validJumpsFor.simps [simp del]

text \<open>
  \<open>collapseJumpSequence\<close> reads the last jump of the sequence (a TypeError on an empty
  sequence) and, for every jump, the colour and king flag of the checker the board holds
  on the killed square (a TypeError when \<open>getCheckerAt\<close> returns undefined).
\<close>

definition removedAt :: "state \<Rightarrow> jump \<Rightarrow> error + removed" where
  "removedAt s j =
     (case getCheckerAt s (killedRow j) (killedCol j) of
        None \<Rightarrow> Inl TypeError
      | Some p \<Rightarrow>
          Inr \<lparr>r_row = killedRow j, r_col = killedCol j,
               r_color = color (checkers s p), r_isKing = isKing (checkers s p)\<rparr>)"

definition collapseJumpSequence :: "state \<Rightarrow> jump list \<Rightarrow> error + move" where
  "collapseJumpSequence s jumpSequence =
     (if jumpSequence = [] then Inl TypeError
      else
        (case mapE (removedAt s) jumpSequence of
           Inl e \<Rightarrow> Inl e
         | Inr rs \<Rightarrow>
             Inr \<lparr>to_col = col (last jumpSequence), to_row = row (last jumpSequence),
                  remove_list = rs\<rparr>))"

text \<open>
  \<open>validMovesFor\<close>. For a checker whose row and col are undefined the first test calls
  \<open>isValidLocation(NaN, NaN)\<close>, which is true (every comparison with NaN is false), and
  then \<open>getCheckerAt\<close> indexes \<open>square[NaN]\<close>, which is undefined: a TypeError. The
  direction assertion only opens a dialog.
\<close>

definition validMovesFor :: "state \<Rightarrow> ref \<Rightarrow> int \<Rightarrow> error + move list" where
  "validMovesFor s checker playerDirection =
     (case loc (checkers s checker) of
        None \<Rightarrow> Inl TypeError
      | Some (r, c) \<Rightarrow>
          let forward =
                [\<lparr>to_col = c + i, to_row = r + playerDirection, remove_list = []\<rparr>.
                   i \<leftarrow> [-1, 0, 1], i \<noteq> 0,
                   isValidLocation s (r + playerDirection) (c + i) \<and>
                   isEmptyLocation s (r + playerDirection) (c + i)];
              backward =
                [\<lparr>to_col = c + i, to_row = r - playerDirection, remove_list = []\<rparr>.
                   i \<leftarrow> [-1, 0, 1], i \<noteq> 0,
                   isValidLocation s (r - playerDirection) (c + i) \<and>
                   isEmptyLocation s (r - playerDirection) (c + i) \<and>
                   isKing (checkers s checker) = True];
              jumps = validJumpsFor s checker playerDirection [] r c
          in (case mapE (collapseJumpSequence s) jumps of
                Inl e \<Rightarrow> Inl e
              | Inr ms \<Rightarrow> Inr (forward @ backward @ ms)))"

text \<open>\<open>ramificationsOfMove\<close> returns the first valid move to the destination, or null.\<close>

definition ramificationsOfMove ::
  "state \<Rightarrow> ref \<Rightarrow> int \<Rightarrow> int \<Rightarrow> int \<Rightarrow> int \<Rightarrow> error + move option" where
  "ramificationsOfMove s checker turnDirection playerDirection toRow toCol =
     (if playerDirection \<noteq> turnDirection then Inr None
      else
        (case validMovesFor s checker playerDirection of
           Inl e \<Rightarrow> Inl e
         | Inr validMoves \<Rightarrow>
             Inr (find (\<lambda>m. to_col m = toCol \<and> to_row m = toRow) validMoves)))"

text \<open>Step 2 of \<open>makeMove\<close>: remove the checker found on each square of the list, in order.\<close>

fun removeDead :: "state \<Rightarrow> removed list \<Rightarrow> (error \<times> state) + state" where
  "removeDead s [] = Inr s"
| "removeDead s (x # xs) =
     (case remove s (getCheckerAt s (r_row x) (r_col x)) of
        Inl e \<Rightarrow> Inl e
      | Inr s' \<Rightarrow> removeDead s' xs)"

text \<open>
  \<open>makeMove\<close> returns null (\<open>None\<close>) with the state as it was, or the result with the new
  state. When \<open>ramificationsOfMove\<close> returned a move, \<open>validMovesFor\<close> has read the
  checker's row and col, so they are defined where \<open>from_col\<close> and \<open>from_row\<close> are set.
\<close>

definition makeMove ::
  "state \<Rightarrow> ref \<Rightarrow> int \<Rightarrow> int \<Rightarrow> int \<Rightarrow> int \<Rightarrow> (error \<times> state) + (state \<times> result option)" where
  "makeMove s checker turnDirection playerDirection toRow toCol =
     (case ramificationsOfMove s checker turnDirection playerDirection toRow toCol of
        Inl e \<Rightarrow> Inl (e, s)
      | Inr None \<Rightarrow> Inr (s, None)
      | Inr (Some ramifications) \<Rightarrow>
          (case loc (checkers s checker) of
             None \<Rightarrow> Inl (TypeError, s)
           | Some (fromRow, fromCol) \<Rightarrow>
               let wasKingBefore = isKing (checkers s checker) in
               (case moveTo s checker (to_row ramifications) (to_col ramifications) of
                  Inl e \<Rightarrow> Inl e
                | Inr s1 \<Rightarrow>
                    let madeKing = (\<not> wasKingBefore \<and> isKing (checkers s1 checker)) in
                    (case removeDead s1 (remove_list ramifications) of
                       Inl e \<Rightarrow> Inl e
                     | Inr s2 \<Rightarrow>
                         Inr (s2, Some (move.extend ramifications
                                (result.fields fromCol fromRow madeKing)))))))"

subsection \<open>Sequences of calls of the mutators\<close>

text \<open>
  A call of one of the three mutators, and a sequence of calls: an exception ends the
  sequence. \<open>remove\<close> is given a checker here, never undefined.
\<close>

datatype call = Add ref int int | MoveTo ref int int | Remove ref

fun perform :: "state \<Rightarrow> call \<Rightarrow> (error \<times> state) + state" where
  "perform s (Add p r c) = add s p r c"
| "perform s (MoveTo p r c) = moveTo s p r c"
| "perform s (Remove p) = remove s (Some p)"

fun performAll :: "state \<Rightarrow> call list \<Rightarrow> (error \<times> state) + state" where
  "performAll s [] = Inr s"
| "performAll s (x # xs) =
     (case perform s x of Inl e \<Rightarrow> Inl e | Inr s' \<Rightarrow> performAll s' xs)"

text \<open>A checker is on the board when a cell of some row array holds it.\<close>

definition onBoard :: "state \<Rightarrow> ref \<Rightarrow> bool" where
  "onBoard s p = (\<exists>r c. rowExists s r \<and> square s (r, c) = Some p)"

text \<open>
  \<open>statedPre\<close>: the preconditions as claim C1 lists them: target cell empty and in bounds
  for add and moveTo, checker on the board for moveTo and remove. \<open>requires\<close>: what the
  comments of board.js require; add
  "requires checker to be not currently on the board, and (row,col) must designate a
  valid empty square".
\<close>

fun statedPre :: "state \<Rightarrow> call \<Rightarrow> bool" where
  "statedPre s (Add p r c) = (isValidLocation s r c \<and> isEmptyLocation s r c)"
| "statedPre s (MoveTo p r c) = (isValidLocation s r c \<and> isEmptyLocation s r c \<and> onBoard s p)"
| "statedPre s (Remove p) = onBoard s p"

fun requires :: "state \<Rightarrow> call \<Rightarrow> bool" where
  "requires s (Add p r c) = (\<not> onBoard s p \<and> isValidLocation s r c \<and> isEmptyLocation s r c)"
| "requires s (MoveTo p r c) = (onBoard s p \<and> isValidLocation s r c \<and> isEmptyLocation s r c)"
| "requires s (Remove p) = onBoard s p"

text \<open>Every call of the sequence meets the precondition \<open>P\<close> in the state it is made in.\<close>

fun meets :: "(state \<Rightarrow> call \<Rightarrow> bool) \<Rightarrow> state \<Rightarrow> call list \<Rightarrow> bool" where
  "meets P s [] = True"
| "meets P s (x # xs) =
     (P s x \<and> (case perform s x of Inl e \<Rightarrow> True | Inr s' \<Rightarrow> meets P s' xs))"

subsection \<open>The specification's read access, for comparison\<close>

text \<open>
  What the specification says of \<open>pieceAt\<close> and \<open>isEmpty\<close>, for comparison: both fail with
  OutOfBounds outside \<open>[0, boardSize)\<close>.
\<close>

datatype spec_error = OutOfBounds

definition pieceAt_spec :: "state \<Rightarrow> int \<Rightarrow> int \<Rightarrow> spec_error + ref option" where
  "pieceAt_spec s r c =
     (if 0 \<le> r \<and> r < boardSize s \<and> 0 \<le> c \<and> c < boardSize s then Inr (square s (r, c))
      else Inl OutOfBounds)"

definition isEmpty_spec :: "state \<Rightarrow> int \<Rightarrow> int \<Rightarrow> spec_error + bool" where
  "isEmpty_spec s r c =
     (case pieceAt_spec s r c of Inl e \<Rightarrow> Inl e | Inr p \<Rightarrow> Inr (p = None))"

subsection \<open>Chains by their first jump\<close>


subsection \<open>Example boards\<close>

text \<open>
  Checker 0 is a red man, checker 2 a red king, every other checker a black man; none is
  placed. \<open>emptyBoard\<close> is \<open>new Board(8)\<close>.
\<close>

definition pieces :: "ref \<Rightarrow> Checker" where
  "pieces = (\<lambda>_. newChecker ''black'' False)
              (0 := newChecker ''red'' False, 2 := newChecker ''red'' True)"

definition emptyBoard :: state where
  "emptyBoard = \<lparr>boardSize = 8, square = (\<lambda>_. None), checkers = pieces, dispatched = []\<rparr>"

text \<open>The red king alone, on square (6, 1).\<close>

definition kingBoard :: state where
  "kingBoard = \<lparr>boardSize = 8, square = (\<lambda>_. None)((6, 1) := Some 2),
                 checkers = pieces(2 := (pieces 2)\<lparr>loc := Some (6, 1)\<rparr>), dispatched = []\<rparr>"

text \<open>
  The red man alone, on square (6, 1): the grid and the checkers of the empty board after
  \<open>add(checker0, 6, 1)\<close>, with no event recorded.
\<close>

definition manBoard :: state where
  "manBoard = \<lparr>boardSize = 8, square = (\<lambda>_. None)((6, 1) := Some 0),
                checkers = pieces(0 := (pieces 0)\<lparr>loc := Some (6, 1)\<rparr>), dispatched = []\<rparr>"

text \<open>
  The red man on (2, 3) with black men on (3, 4) and (5, 6): it can jump to (4, 5) and
  from there to (6, 7).
\<close>

definition jumpBoard :: state where
  "jumpBoard = \<lparr>boardSize = 8,
                 square = (\<lambda>_. None)((2, 3) := Some 0, (3, 4) := Some 1, (5, 6) := Some 3),
                 checkers = pieces(0 := (pieces 0)\<lparr>loc := Some (2, 3)\<rparr>,
                                   1 := (pieces 1)\<lparr>loc := Some (3, 4)\<rparr>,
                                   3 := (pieces 3)\<lparr>loc := Some (5, 6)\<rparr>),
                 dispatched = []\<rparr>"

section \<open>Evaluation on the example boards\<close>

lemmas board_defs =
  isValidLocation_def getCheckerAt_def isEmptyLocation_def rowExists_def
  dispatchBoardEvent_def setLoc_def add_def canBeKing_def promote_def moveTo_def remove_def

lemmas example_defs = pieces_def emptyBoard_def newChecker_def

lemmas rules_defs =
  isValidJump_def possibleDestinations_def jumped_def alreadyJumpedPiece_def
  removedAt_def collapseJumpSequence_def validMovesFor_def

lemma add_emptyBoard_manBoard:
  "\<exists>s. add emptyBoard 0 6 1 = Inr s \<and> square s = square manBoard \<and> checkers s = checkers manBoard"
  by (simp add: board_defs example_defs manBoard_def)

lemma validMovesFor_manBoard:
  "validMovesFor manBoard 0 1 =
     Inr [\<lparr>to_col = 0, to_row = 7, remove_list = []\<rparr>, \<lparr>to_col = 2, to_row = 7, remove_list = []\<rparr>]"
  by (simp add: validJumpsFor.simps rules_defs board_defs example_defs manBoard_def)

lemma validJumpsFor_jumpBoard:
  "validJumpsFor jumpBoard 0 1 [] 2 3 =
     [[\<lparr>killedCol = 4, killedRow = 3, col = 5, row = 4\<rparr>,
       \<lparr>killedCol = 6, killedRow = 5, col = 7, row = 6\<rparr>],
      [\<lparr>killedCol = 4, killedRow = 3, col = 5, row = 4\<rparr>]]"
  by (simp add: validJumpsFor.simps rules_defs board_defs example_defs jumpBoard_def)

lemma validMovesFor_jumpBoard:
  "validMovesFor jumpBoard 0 1 =
     Inr [\<lparr>to_col = 2, to_row = 3, remove_list = []\<rparr>,
          \<lparr>to_col = 7, to_row = 6, remove_list =
             [\<lparr>r_row = 3, r_col = 4, r_color = ''black'', r_isKing = False\<rparr>,
              \<lparr>r_row = 5, r_col = 6, r_color = ''black'', r_isKing = False\<rparr>]\<rparr>,
          \<lparr>to_col = 5, to_row = 4, remove_list =
             [\<lparr>r_row = 3, r_col = 4, r_color = ''black'', r_isKing = False\<rparr>]\<rparr>]"
proof -
  have at: "loc (checkers jumpBoard 0) = Some (2, 3)"
    by (simp add: jumpBoard_def)
  show ?thesis
    unfolding validMovesFor_def at
    by (simp add: validJumpsFor_jumpBoard)
       (simp add: removedAt_def collapseJumpSequence_def board_defs example_defs jumpBoard_def)
qed

lemma Board_emptyBoard: "Board pieces 8 = Inr emptyBoard"
  by (simp add: Board_def emptyBoard_def)

section \<open>The board's read access\<close>

text \<open>
  C8, as the code has it: \<open>getCheckerAt\<close> returns undefined, the value of an empty cell and
  no error, when row or col is outside \<open>[0, boardSize)\<close>, and for an empty cell inside the
  bounds; \<open>isEmptyLocation\<close> does not check bounds itself: it is true exactly when
  \<open>getCheckerAt\<close> returns undefined, so it returns the ordinary boolean true outside
  the bounds.
\<close>

theorem getCheckerAt_out_of_bounds:
  "(\<not> isValidLocation s r c \<longrightarrow> getCheckerAt s r c = None \<and> isEmptyLocation s r c = True)
   \<and> (isValidLocation s r c \<and> square s (r, c) = None \<longrightarrow> getCheckerAt s r c = None)
   \<and> (isEmptyLocation s r c \<longleftrightarrow> getCheckerAt s r c = None)"
  by (simp add: getCheckerAt_def isEmptyLocation_def split: option.splits)

theorem getCheckerAt_out_of_bounds_witness:
  "\<not> isValidLocation emptyBoard 8 0 \<and> getCheckerAt emptyBoard 8 0 = None
   \<and> isEmptyLocation emptyBoard 8 0 = True
   \<and> isValidLocation emptyBoard 3 4 \<and> square emptyBoard (3, 4) = None
   \<and> getCheckerAt emptyBoard 3 4 = None"
  using getCheckerAt_out_of_bounds [of emptyBoard 8 0] getCheckerAt_out_of_bounds [of emptyBoard 3 4]
  by (simp add: isValidLocation_def emptyBoard_def)

text \<open>
  C8 as stated fails on the empty 8x8 board: at (-1, 0), where the specification's
  \<open>pieceAt\<close> fails, \<open>getCheckerAt\<close> returns what it returns for the empty cell (0, 0); at
  (0, 8), where the specification's \<open>isEmpty\<close> fails, \<open>isEmptyLocation\<close> returns true.
\<close>

theorem getCheckerAt_no_OutOfBounds:
  "pieceAt_spec emptyBoard (-1) 0 = Inl OutOfBounds
   \<and> getCheckerAt emptyBoard (-1) 0 = None \<and> getCheckerAt emptyBoard 0 0 = None
   \<and> isEmpty_spec emptyBoard 0 8 = Inl OutOfBounds
   \<and> isEmptyLocation emptyBoard 0 8 = True
   \<and> \<not> (\<forall>r c. pieceAt_spec emptyBoard r c = Inr (getCheckerAt emptyBoard r c))
   \<and> \<not> (\<forall>r c. isEmpty_spec emptyBoard r c = Inr (isEmptyLocation emptyBoard r c))"
proof -
  have a: "pieceAt_spec emptyBoard (-1) 0 = Inl OutOfBounds"
    and b: "isEmpty_spec emptyBoard 0 8 = Inl OutOfBounds"
    by (simp_all add: pieceAt_spec_def isEmpty_spec_def emptyBoard_def)
  from a have "\<not> (\<forall>r c. pieceAt_spec emptyBoard r c = Inr (getCheckerAt emptyBoard r c))"
    by (metis sum.distinct(1))
  moreover from b have "\<not> (\<forall>r c. isEmpty_spec emptyBoard r c = Inr (isEmptyLocation emptyBoard r c))"
    by (metis sum.distinct(1))
  moreover have "getCheckerAt emptyBoard (-1) 0 = None" "getCheckerAt emptyBoard 0 0 = None"
    "isEmptyLocation emptyBoard 0 8 = True"
    by (simp_all add: board_defs example_defs)
  ultimately show ?thesis using a b by simp
qed

section \<open>Promotion in moveTo\<close>

text \<open>
  C10: when the destination of \<open>moveTo\<close> is an empty square of the far row for the
  checker's colour (row \<open>boardSize - 1\<close> for red, row 0 otherwise), \<open>promote\<close> runs and a
  promote event is dispatched, whatever \<open>isKing\<close> was before: \<open>canBeKing\<close> reads the colour
  and the row only. The checker is placed and its row and the destination row exist, so
  that \<open>moveTo\<close> does not throw.
\<close>

theorem moveTo_promotes_again:
  assumes empty: "isEmptyLocation s toRow toCol"
    and placed: "loc (checkers s checker) = Some (fromRow, fromCol)"
    and rows: "rowExists s fromRow" "rowExists s toRow"
    and far: "toRow = (if color (checkers s checker) = ''red'' then boardSize s - 1 else 0)"
  shows "\<exists>s'. moveTo s checker toRow toCol = Inr s'
           \<and> isKing (checkers s' checker)
           \<and> map event (dispatched s') =
               map event (dispatched s) @
                 [\<lparr>type = ''promote'', details = OnlyChecker checker\<rparr>,
                  \<lparr>type = ''move'', details = FromTo checker toRow toCol fromRow fromCol\<rparr>]"
proof -
  let ?s2 = "s\<lparr>square := (square s)((fromRow, fromCol) := None, (toRow, toCol) := Some checker)\<rparr>"
  have king: "canBeKing ?s2 checker toRow toCol"
    using far by (simp add: canBeKing_def)
  show ?thesis
    using empty placed rows king
    by (simp add: moveTo_def Let_def promote_def dispatchBoardEvent_def setLoc_def rowExists_def)
qed

theorem moveTo_promotes_again_witness:
  "isKing (checkers kingBoard 2) \<and> isEmptyLocation kingBoard 7 2
   \<and> loc (checkers kingBoard 2) = Some (6, 1)
   \<and> (\<exists>s'. moveTo kingBoard 2 7 2 = Inr s'
           \<and> isKing (checkers s' 2)
           \<and> map event (dispatched s') =
                 [\<lparr>type = ''promote'', details = OnlyChecker 2\<rparr>,
                  \<lparr>type = ''move'', details = FromTo 2 7 2 6 1\<rparr>])"
proof -
  have h: "isEmptyLocation kingBoard 7 2" "loc (checkers kingBoard 2) = Some (6, 1)"
    "rowExists kingBoard 6" "rowExists kingBoard 7"
    "(7::int) = (if color (checkers kingBoard 2) = ''red'' then boardSize kingBoard - 1 else 0)"
    "isKing (checkers kingBoard 2)" "dispatched kingBoard = []"
    by (simp_all add: kingBoard_def board_defs example_defs)
  from moveTo_promotes_again [OF h(1-5)] h show ?thesis by simp
qed

text \<open>
  C9 at the red man on (6, 1) moved to (7, 2), where it is promoted: the promote event is
  dispatched first, while the checker's row and col are still (6, 1) and the grid already
  holds it on (7, 2); the move event follows, with row and col (7, 2).
\<close>

theorem moveTo_promote_dispatched_first:
  "\<exists>s'. moveTo manBoard 0 7 2 = Inr s'
      \<and> map (\<lambda>d. (type (event d), details (event d), loc (checkersThen d 0),
                  squareThen d (6, 1), squareThen d (7, 2))) (dispatched s')
        = [(''promote'', OnlyChecker 0, Some (6, 1), None, Some 0),
           (''move'', FromTo 0 7 2 6 1, Some (7, 2), None, Some 0)]"
  by (simp add: board_defs example_defs manBoard_def)

section \<open>add\<close>

text \<open>
  C7, as the code has it: \<open>add\<close> is a no-op that dispatches no event when the target cell
  is occupied (\<open>getCheckerAt\<close> finds a checker there). When the target cell is inside the
  bounds and empty,
  \<open>add\<close> places the checker whether or not another cell holds it already: it overwrites
  the checker's row and col, stores it in the target cell, changes no other cell and
  dispatches an add event.
\<close>

theorem add_occupied_noop_else_placed:
  "(getCheckerAt s r c \<noteq> None \<longrightarrow> add s checker r c = Inr s)
   \<and> (isValidLocation s r c \<and> getCheckerAt s r c = None \<longrightarrow>
        (\<exists>s'. add s checker r c = Inr s'
           \<and> square s' = (square s)((r, c) := Some checker)
           \<and> checkers s' = (checkers s)(checker := (checkers s checker)\<lparr>loc := Some (r, c)\<rparr>)
           \<and> boardSize s' = boardSize s
           \<and> dispatched s' = dispatched s @
                [\<lparr>event = \<lparr>type = ''add'', details = AtSquare checker r c\<rparr>,
                  checkersThen = checkers s', squareThen = square s'\<rparr>]))"
  by (auto simp: board_defs Let_def)

theorem add_occupied_noop_else_placed_witness:
  "getCheckerAt manBoard 6 1 \<noteq> None
   \<and> add manBoard 1 6 1 = Inr manBoard
   \<and> isValidLocation manBoard 3 3 \<and> getCheckerAt manBoard 3 3 = None
   \<and> getCheckerAt manBoard 6 1 = Some 0
   \<and> (\<exists>s'. add manBoard 0 3 3 = Inr s'
         \<and> square s' = (square manBoard)((3, 3) := Some 0)
         \<and> checkers s' = (checkers manBoard)(0 := (checkers manBoard 0)\<lparr>loc := Some (3, 3)\<rparr>)
         \<and> boardSize s' = boardSize manBoard
         \<and> dispatched s' = dispatched manBoard @
                [\<lparr>event = \<lparr>type = ''add'', details = AtSquare 0 3 3\<rparr>,
                  checkersThen = checkers s', squareThen = square s'\<rparr>])"
proof -
  have h: "getCheckerAt manBoard 6 1 = Some 0"
    "isValidLocation manBoard 3 3 \<and> getCheckerAt manBoard 3 3 = None"
    by (simp_all add: manBoard_def isValidLocation_def getCheckerAt_def)
  from add_occupied_noop_else_placed [of manBoard 6 1 1]
    add_occupied_noop_else_placed [of manBoard 3 3 0] h
  show ?thesis by simp
qed

text \<open>
  C7 as stated fails for the red man on (6, 1): adding it again at (3, 3) is not rejected.
  Both cells hold it afterwards, its row and col are (3, 3), and an add event is dispatched.
\<close>

theorem add_again_not_rejected:
  "getCheckerAt manBoard 6 1 = Some 0
   \<and> (\<exists>s'. add manBoard 0 3 3 = Inr s' \<and> s' \<noteq> manBoard
         \<and> square s' (3, 3) = Some 0 \<and> square s' (6, 1) = Some 0
         \<and> loc (checkers s' 0) = Some (3, 3)
         \<and> map event (dispatched s') = [\<lparr>type = ''add'', details = AtSquare 0 3 3\<rparr>])"
proof -
  have "dispatched manBoard = []" by (simp add: manBoard_def)
  then show ?thesis
    by (auto simp: board_defs example_defs manBoard_def)
qed

section \<open>The representation invariant\<close>

lemma isValidLocation_rowExists: "isValidLocation s r c \<Longrightarrow> rowExists s r"
  by (simp add: isValidLocation_def rowExists_def split: if_splits)

lemma checkRep_Board: "Board objs n = Inr s \<Longrightarrow> checkRep s"
  by (auto simp: Board_def checkRep_def split: if_splits)

lemma checkRep_add:
  assumes inv: "checkRep s" and pre: "requires s (Add p r c)"
  shows "\<exists>s'. add s p r c = Inr s' \<and> checkRep s'"
proof -
  from pre have row: "rowExists s r" and empty: "isEmptyLocation s r c" and off: "\<not> onBoard s p"
    by (auto dest: isValidLocation_rowExists)
  let ?s' = "dispatchBoardEvent
               ((setLoc s p r c)\<lparr>square := (square s)((r, c) := Some p)\<rparr>) ''add'' (AtSquare p r c)"
  have run: "add s p r c = Inr ?s'"
    using row empty by (simp add: add_def Let_def rowExists_def setLoc_def)
  have "checkRep ?s'"
    unfolding checkRep_def
  proof (intro allI impI)
    fix r' c' q
    assume cell: "rowExists ?s' r' \<and> square ?s' (r', c') = Some q"
    show "loc (checkers ?s' q) = Some (r', c')"
    proof (cases "(r', c') = (r, c)")
      case True
      with cell show ?thesis by (simp add: dispatchBoardEvent_def setLoc_def)
    next
      case False
      with cell have old: "rowExists s r'" "square s (r', c') = Some q"
        by (auto simp: dispatchBoardEvent_def setLoc_def rowExists_def)
      with off have "q \<noteq> p" by (auto simp: onBoard_def)
      moreover from inv old have "loc (checkers s q) = Some (r', c')" by (simp add: checkRep_def)
      ultimately show ?thesis by (simp add: dispatchBoardEvent_def setLoc_def)
    qed
  qed
  with run show ?thesis by blast
qed

lemma checkRep_moveTo:
  assumes inv: "checkRep s" and pre: "requires s (MoveTo p r c)"
  shows "\<exists>s'. moveTo s p r c = Inr s' \<and> checkRep s'"
proof -
  from pre have row: "rowExists s r" and empty: "isEmptyLocation s r c" and on: "onBoard s p"
    by (auto dest: isValidLocation_rowExists)
  from on obtain fr fc where src: "rowExists s fr" "square s (fr, fc) = Some p"
    by (auto simp: onBoard_def)
  with inv have at: "loc (checkers s p) = Some (fr, fc)" by (simp add: checkRep_def)
  obtain s' where run: "moveTo s p r c = Inr s'"
    and sq: "square s' = (square s)((fr, fc) := None, (r, c) := Some p)"
    and lc: "\<And>q. loc (checkers s' q) = (if q = p then Some (r, c) else loc (checkers s q))"
    and sz: "boardSize s' = boardSize s"
    using row empty src(1) at
    by (simp add: moveTo_def Let_def rowExists_def setLoc_def promote_def dispatchBoardEvent_def)
  have "checkRep s'"
    unfolding checkRep_def
  proof (intro allI impI)
    fix r' c' q
    assume cell: "rowExists s' r' \<and> square s' (r', c') = Some q"
    show "loc (checkers s' q) = Some (r', c')"
    proof (cases "(r', c') = (r, c)")
      case True
      with cell sq lc show ?thesis by simp
    next
      case False
      with cell sq sz have old: "rowExists s r'" "square s (r', c') = Some q" "(r', c') \<noteq> (fr, fc)"
        by (auto simp: rowExists_def split: if_splits)
      with inv have l: "loc (checkers s q) = Some (r', c')" by (simp add: checkRep_def)
      with at old(3) have "q \<noteq> p" by auto
      with l lc show ?thesis by simp
    qed
  qed
  with run show ?thesis by blast
qed

lemma checkRep_remove:
  assumes inv: "checkRep s" and pre: "requires s (Remove p)"
  shows "\<exists>s'. remove s (Some p) = Inr s' \<and> checkRep s'"
proof -
  from pre obtain r c where src: "rowExists s r" "square s (r, c) = Some p"
    by (auto simp: onBoard_def)
  with inv have at: "loc (checkers s p) = Some (r, c)" by (simp add: checkRep_def)
  let ?s' = "dispatchBoardEvent (s\<lparr>square := (square s)((r, c) := None)\<rparr>) ''remove'' (AtSquare p r c)"
  have run: "remove s (Some p) = Inr ?s'"
    using src(1) at by (simp add: remove_def)
  have "checkRep ?s'"
    using inv by (auto simp: checkRep_def dispatchBoardEvent_def rowExists_def split: if_splits)
  with run show ?thesis by blast
qed

lemma checkRep_perform:
  "checkRep s \<Longrightarrow> requires s x \<Longrightarrow> \<exists>s'. perform s x = Inr s' \<and> checkRep s'"
  by (cases x) (simp_all add: checkRep_add checkRep_moveTo checkRep_remove del: requires.simps)

text \<open>
  C1, as the code has it: from a board on which every occupied cell (r, c) holds a checker
  whose row is r and whose col is c (a new board is one), every sequence of add, moveTo
  and remove calls in which each call meets what board.js requires of it (add: checker
  not currently on the board, target cell empty and in bounds; moveTo: checker on the
  board, target cell empty and in bounds; remove: checker on the board) completes, and
  the same holds of the board after it.
\<close>

theorem checkRep_preserved:
  assumes "checkRep s" and "meets requires s calls"
  shows "\<exists>s'. performAll s calls = Inr s' \<and> checkRep s'"
  using assms
proof (induction calls arbitrary: s)
  case Nil
  then show ?case by simp
next
  case (Cons x xs)
  from Cons.prems have "requires s x" by simp
  with Cons.prems(1) obtain s1 where step: "perform s x = Inr s1" and inv1: "checkRep s1"
    using checkRep_perform by blast
  from Cons.prems(2) step have "meets requires s1 xs" by simp
  from Cons.IH [OF inv1 this] step show ?case by simp
qed

theorem checkRep_preserved_witness:
  "checkRep emptyBoard
   \<and> meets requires emptyBoard [Add 0 6 1, MoveTo 0 5 2, Add 1 3 3, Remove 1]
   \<and> (\<exists>s'. performAll emptyBoard [Add 0 6 1, MoveTo 0 5 2, Add 1 3 3, Remove 1] = Inr s'
         \<and> checkRep s')"
proof -
  have inv: "checkRep emptyBoard"
    by (rule checkRep_Board [OF Board_emptyBoard])
  have pre: "meets requires emptyBoard [Add 0 6 1, MoveTo 0 5 2, Add 1 3 3, Remove 1]"
    by (auto simp add: board_defs example_defs onBoard_def Let_def intro!: exI [of _ "3::int"])
  from checkRep_preserved [OF inv pre] inv pre show ?thesis by simp
qed

text \<open>
  C1 as stated fails: on the new 8x8 board, add(checker0, 0, 0) and then
  add(checker0, 1, 1) each find their target cell empty and in bounds, and afterwards
  cell (0, 0) holds checker 0, whose row and col are (1, 1).
\<close>

theorem readd_breaks_checkRep:
  "checkRep emptyBoard
   \<and> meets statedPre emptyBoard [Add 0 0 0, Add 0 1 1]
   \<and> (\<exists>s'. performAll emptyBoard [Add 0 0 0, Add 0 1 1] = Inr s'
         \<and> square s' (0, 0) = Some 0 \<and> loc (checkers s' 0) = Some (1, 1)
         \<and> \<not> checkRep s')"
proof -
  have inv: "checkRep emptyBoard"
    by (rule checkRep_Board [OF Board_emptyBoard])
  have pre: "meets statedPre emptyBoard [Add 0 0 0, Add 0 1 1]"
    by (simp add: board_defs example_defs Let_def)
  obtain s' where run: "performAll emptyBoard [Add 0 0 0, Add 0 1 1] = Inr s'"
    and cell: "square s' (0, 0) = Some 0" and fld: "loc (checkers s' 0) = Some (1, 1)"
    and sz: "boardSize s' = 8"
    by (simp add: board_defs example_defs Let_def)
  have "\<not> checkRep s'"
  proof
    assume "checkRep s'"
    with cell sz have "loc (checkers s' 0) = Some (0, 0)"
      by (simp add: checkRep_def rowExists_def)
    with fld show False by simp
  qed
  with inv pre run cell fld show ?thesis by simp
qed

section \<open>Jump sequences\<close>

lemma validJumpsFor_mem:
  "chain \<in> set (validJumpsFor s checker d jumpSeq r c) \<longleftrightarrow>
     (\<exists>dest \<in> set (possibleDestinations r c).
        isValidJump s checker r c (fst dest) (snd dest) d
        \<and> \<not> alreadyJumpedPiece jumpSeq (killedRow (jumped r c (fst dest) (snd dest)))
                                      (killedCol (jumped r c (fst dest) (snd dest)))
        \<and> (chain = jumpSeq @ [jumped r c (fst dest) (snd dest)]
            \<or> chain \<in> set (validJumpsFor s checker d
                               (jumpSeq @ [jumped r c (fst dest) (snd dest)]) (fst dest) (snd dest))))"
  by (subst validJumpsFor.simps) auto

lemma validJumpsFor_extends:
  "chain \<in> set (validJumpsFor s checker d jumpSeq r c) \<Longrightarrow>
     \<exists>ext. ext \<noteq> [] \<and> chain = jumpSeq @ ext"
proof (induction s checker d jumpSeq r c rule: validJumpsFor.induct)
  case (1 s checker d jumpSeq r c)
  from "1.prems" obtain dest where dest: "dest \<in> set (possibleDestinations r c)"
    and valid: "isValidJump s checker r c (fst dest) (snd dest) d"
    and fresh: "\<not> alreadyJumpedPiece jumpSeq (killedRow (jumped r c (fst dest) (snd dest)))
                                      (killedCol (jumped r c (fst dest) (snd dest)))"
    and alt: "chain = jumpSeq @ [jumped r c (fst dest) (snd dest)]
            \<or> chain \<in> set (validJumpsFor s checker d
                               (jumpSeq @ [jumped r c (fst dest) (snd dest)]) (fst dest) (snd dest))"
    unfolding validJumpsFor_mem [of chain s checker d jumpSeq r c] by blast
  from alt show ?case
  proof
    assume "chain = jumpSeq @ [jumped r c (fst dest) (snd dest)]"
    then show ?thesis by blast
  next
    assume "chain \<in> set (validJumpsFor s checker d
                               (jumpSeq @ [jumped r c (fst dest) (snd dest)]) (fst dest) (snd dest))"
    with "1.IH" [OF dest valid fresh] obtain ext
      where "chain = (jumpSeq @ [jumped r c (fst dest) (snd dest)]) @ ext" by auto
    then have "chain = jumpSeq @ (jumped r c (fst dest) (snd dest) # ext)" by simp
    then show ?thesis by blast
  qed
qed

text \<open>
  C5: no chain returned by \<open>validJumpsFor\<close> has two entries with the same killed square.
  Every returned chain starts with the \<open>jumpSeq\<close> of the call, the jumps already made;
  \<open>validMovesFor\<close> starts the search with the empty sequence.
\<close>

theorem validJumpsFor_distinct:
  assumes "distinct (map (\<lambda>j. (killedRow j, killedCol j)) jumpSeq)"
    and "chain \<in> set (validJumpsFor s checker d jumpSeq r c)"
  shows "distinct (map (\<lambda>j. (killedRow j, killedCol j)) chain)"
  using assms
proof (induction s checker d jumpSeq r c rule: validJumpsFor.induct)
  case (1 s checker d jumpSeq r c)
  from "1.prems"(2) obtain dest where dest: "dest \<in> set (possibleDestinations r c)"
    and valid: "isValidJump s checker r c (fst dest) (snd dest) d"
    and fresh: "\<not> alreadyJumpedPiece jumpSeq (killedRow (jumped r c (fst dest) (snd dest)))
                                      (killedCol (jumped r c (fst dest) (snd dest)))"
    and alt: "chain = jumpSeq @ [jumped r c (fst dest) (snd dest)]
            \<or> chain \<in> set (validJumpsFor s checker d
                               (jumpSeq @ [jumped r c (fst dest) (snd dest)]) (fst dest) (snd dest))"
    unfolding validJumpsFor_mem [of chain s checker d jumpSeq r c] by blast
  let ?j = "jumped r c (fst dest) (snd dest)"
  from fresh have "(killedRow ?j, killedCol ?j) \<notin> set (map (\<lambda>j. (killedRow j, killedCol j)) jumpSeq)"
    by (simp only: alreadyJumpedPiece_iff not_False_eq_True)
  with "1.prems"(1) have longer: "distinct (map (\<lambda>j. (killedRow j, killedCol j)) (jumpSeq @ [?j]))"
    by simp
  from alt show ?case
  proof
    assume "chain = jumpSeq @ [?j]"
    with longer show ?thesis by simp
  next
    assume "chain \<in> set (validJumpsFor s checker d (jumpSeq @ [?j]) (fst dest) (snd dest))"
    with "1.IH" [OF dest valid fresh] longer show ?thesis by simp
  qed
qed

theorem validJumpsFor_distinct_witness:
  "distinct (map (\<lambda>j. (killedRow j, killedCol j)) ([] :: jump list))
   \<and> [\<lparr>killedCol = 4, killedRow = 3, col = 5, row = 4\<rparr>,
       \<lparr>killedCol = 6, killedRow = 5, col = 7, row = 6\<rparr>]
        \<in> set (validJumpsFor jumpBoard 0 1 [] 2 3)
   \<and> distinct (map (\<lambda>j. (killedRow j, killedCol j))
        [\<lparr>killedCol = 4, killedRow = 3, col = 5, row = 4\<rparr>,
         \<lparr>killedCol = 6, killedRow = 5, col = 7, row = 6\<rparr>])"
proof -
  have mem: "[\<lparr>killedCol = 4, killedRow = 3, col = 5, row = 4\<rparr>,
       \<lparr>killedCol = 6, killedRow = 5, col = 7, row = 6\<rparr>]
        \<in> set (validJumpsFor jumpBoard 0 1 [] 2 3)"
    by (simp add: validJumpsFor_jumpBoard)
  have start: "distinct (map (\<lambda>j. (killedRow j, killedCol j)) ([] :: jump list))" by simp
  from validJumpsFor_distinct [OF start mem] mem show ?thesis by simp
qed






lemma validJumpsFor_length:
  "chain \<in> set (validJumpsFor s checker d jumpSeq r c) \<Longrightarrow>
     length chain \<le> length jumpSeq + card (uncaptured s jumpSeq)"
proof (induction s checker d jumpSeq r c rule: validJumpsFor.induct)
  case (1 s checker d jumpSeq r c)
  from "1.prems" obtain dest where dest: "dest \<in> set (possibleDestinations r c)"
    and valid: "isValidJump s checker r c (fst dest) (snd dest) d"
    and fresh: "\<not> alreadyJumpedPiece jumpSeq (killedRow (jumped r c (fst dest) (snd dest)))
                                      (killedCol (jumped r c (fst dest) (snd dest)))"
    and alt: "chain = jumpSeq @ [jumped r c (fst dest) (snd dest)]
            \<or> chain \<in> set (validJumpsFor s checker d
                               (jumpSeq @ [jumped r c (fst dest) (snd dest)]) (fst dest) (snd dest))"
    unfolding validJumpsFor_mem [of chain s checker d jumpSeq r c] by blast
  let ?j = "jumped r c (fst dest) (snd dest)"
  have "isValidLocation s (killedRow ?j) (killedCol ?j)"
    using isValidJump_midpoint(1) [OF valid] by (simp add: jumped_def add.commute)
  from uncaptured_shrinks [OF this fresh refl refl]
  have less: "card (uncaptured s (jumpSeq @ [?j])) < card (uncaptured s jumpSeq)" .
  from alt show ?case
  proof
    assume "chain = jumpSeq @ [?j]"
    with less show ?thesis by simp
  next
    assume "chain \<in> set (validJumpsFor s checker d (jumpSeq @ [?j]) (fst dest) (snd dest))"
    with "1.IH" [OF dest valid fresh]
    have "length chain \<le> length (jumpSeq @ [?j]) + card (uncaptured s (jumpSeq @ [?j]))" by simp
    with less show ?thesis by simp
  qed
qed

text \<open>
  C6: \<open>validJumpsFor\<close> terminates. \<open>validJumpsFor_rel callee caller\<close> is the relation of its
  recursive calls: the call with the arguments \<open>caller\<close> calls itself with the arguments
  \<open>callee\<close>. Every such call extends \<open>jumpSeq\<close> by one jump whose killed square is inside
  the bounds, occupied and not among the killed squares of \<open>jumpSeq\<close>, so the finite set
  of uncaptured squares shrinks; the relation is well-founded: no call starts an infinite
  descent of recursive calls. No returned chain has more jumps beyond \<open>jumpSeq\<close> than
  there are uncaptured squares.
\<close>

theorem validJumpsFor_calls_wellfounded:
  "wfP validJumpsFor_rel
   \<and> (\<forall>callee caller. validJumpsFor_rel callee caller \<longrightarrow>
        (\<exists>s checker d jumpSeq r c j r' c'.
            caller = (s, checker, d, jumpSeq, r, c)
          \<and> callee = (s, checker, d, jumpSeq @ [j], r', c')
          \<and> isValidLocation s (killedRow j) (killedCol j)
          \<and> getCheckerAt s (killedRow j) (killedCol j) \<noteq> None
          \<and> (killedRow j, killedCol j) \<notin> set (map (\<lambda>j. (killedRow j, killedCol j)) jumpSeq)
          \<and> card (uncaptured s (jumpSeq @ [j])) < card (uncaptured s jumpSeq)))
   \<and> (\<forall>s checker d jumpSeq r c. \<forall>chain \<in> set (validJumpsFor s checker d jumpSeq r c).
          length chain \<le> length jumpSeq + card (uncaptured s jumpSeq))"
proof (intro conjI)
  show "\<forall>s checker d jumpSeq r c. \<forall>chain \<in> set (validJumpsFor s checker d jumpSeq r c).
          length chain \<le> length jumpSeq + card (uncaptured s jumpSeq)"
    using validJumpsFor_length by blast
next
  have step: "\<exists>s checker d jumpSeq r c j r' c'.
            caller = (s, checker, d, jumpSeq, r, c)
          \<and> callee = (s, checker, d, jumpSeq @ [j], r', c')
          \<and> isValidLocation s (killedRow j) (killedCol j)
          \<and> getCheckerAt s (killedRow j) (killedCol j) \<noteq> None
          \<and> (killedRow j, killedCol j) \<notin> set (map (\<lambda>j. (killedRow j, killedCol j)) jumpSeq)
          \<and> card (uncaptured s (jumpSeq @ [j])) < card (uncaptured s jumpSeq)"
    if rel: "validJumpsFor_rel callee caller" for callee caller
    using rel
  proof (cases rule: validJumpsFor_rel.cases)
    case (1 s checker d jumpSeq r c dest)
    let ?j = "jumped r c (fst dest) (snd dest)"
    from isValidJump_midpoint [OF "1"(4)]
    have inb: "isValidLocation s (killedRow ?j) (killedCol ?j)"
      and occ: "getCheckerAt s (killedRow ?j) (killedCol ?j) \<noteq> None"
      by (simp_all add: jumped_def add.commute)
    from "1"(5) have new: "(killedRow ?j, killedCol ?j) \<notin> set (map (\<lambda>j. (killedRow j, killedCol j)) jumpSeq)"
      by (simp only: alreadyJumpedPiece_iff not_False_eq_True)
    from uncaptured_shrinks [OF inb "1"(5) refl refl]
    have "card (uncaptured s (jumpSeq @ [?j])) < card (uncaptured s jumpSeq)" .
    with "1"(1,2) inb occ new show ?thesis by simp
  qed
  then show "\<forall>callee caller. validJumpsFor_rel callee caller \<longrightarrow>
        (\<exists>s checker d jumpSeq r c j r' c'.
            caller = (s, checker, d, jumpSeq, r, c)
          \<and> callee = (s, checker, d, jumpSeq @ [j], r', c')
          \<and> isValidLocation s (killedRow j) (killedCol j)
          \<and> getCheckerAt s (killedRow j) (killedCol j) \<noteq> None
          \<and> (killedRow j, killedCol j) \<notin> set (map (\<lambda>j. (killedRow j, killedCol j)) jumpSeq)
          \<and> card (uncaptured s (jumpSeq @ [j])) < card (uncaptured s jumpSeq))"
    by blast
  have "{(callee, caller). validJumpsFor_rel callee caller}
          \<subseteq> measure (\<lambda>(s, checker, d, jumpSeq, r, c). card (uncaptured s jumpSeq))"
    using step by fastforce
  then have "wf {(callee, caller). validJumpsFor_rel callee caller}"
    by (rule wf_subset [OF wf_measure])
  then show "wfP validJumpsFor_rel"
    by (simp add: wfp_def)
qed

theorem validJumpsFor_calls_wellfounded_witness:
  "validJumpsFor_rel
     (jumpBoard, 0, 1, [\<lparr>killedCol = 4, killedRow = 3, col = 5, row = 4\<rparr>], 4, 5)
     (jumpBoard, 0, 1, [], 2, 3)
   \<and> getCheckerAt jumpBoard 3 4 \<noteq> None
   \<and> card (uncaptured jumpBoard [\<lparr>killedCol = 4, killedRow = 3, col = 5, row = 4\<rparr>])
       < card (uncaptured jumpBoard [])"
proof -
  let ?dest = "(4, 5) :: int \<times> int"
  have dest: "?dest \<in> set (possibleDestinations 2 3)"
    by (simp add: possibleDestinations_def)
  have valid: "isValidJump jumpBoard 0 2 3 (fst ?dest) (snd ?dest) 1"
    by (simp add: rules_defs board_defs example_defs jumpBoard_def)
  have fresh: "\<not> alreadyJumpedPiece [] (killedRow (jumped 2 3 (fst ?dest) (snd ?dest)))
                  (killedCol (jumped 2 3 (fst ?dest) (snd ?dest)))"
    by (simp add: alreadyJumpedPiece_def)
  have "validJumpsFor_rel
     (jumpBoard, 0, 1, copyJumpSequence [] @ [jumped 2 3 (fst ?dest) (snd ?dest)],
      fst ?dest, snd ?dest)
     (jumpBoard, 0, 1, [], 2, 3)"
    by (rule validJumpsFor_rel.intros [OF dest valid fresh])
  then have call: "validJumpsFor_rel
     (jumpBoard, 0, 1, [\<lparr>killedCol = 4, killedRow = 3, col = 5, row = 4\<rparr>], 4, 5)
     (jumpBoard, 0, 1, [], 2, 3)"
    by (simp add: jumped_def)
  with validJumpsFor_calls_wellfounded show ?thesis by fastforce
qed

section \<open>makeMove on an invalid move\<close>

lemma validJumpsFor_occupied:
  "chain \<in> set (validJumpsFor s checker d jumpSeq r c) \<Longrightarrow>
     \<forall>j \<in> set (drop (length jumpSeq) chain).
        getCheckerAt s (killedRow j) (killedCol j) \<noteq> None"
proof (induction s checker d jumpSeq r c rule: validJumpsFor.induct)
  case (1 s checker d jumpSeq r c)
  from "1.prems" obtain dest where dest: "dest \<in> set (possibleDestinations r c)"
    and valid: "isValidJump s checker r c (fst dest) (snd dest) d"
    and fresh: "\<not> alreadyJumpedPiece jumpSeq (killedRow (jumped r c (fst dest) (snd dest)))
                                      (killedCol (jumped r c (fst dest) (snd dest)))"
    and alt: "chain = jumpSeq @ [jumped r c (fst dest) (snd dest)]
            \<or> chain \<in> set (validJumpsFor s checker d
                               (jumpSeq @ [jumped r c (fst dest) (snd dest)]) (fst dest) (snd dest))"
    unfolding validJumpsFor_mem [of chain s checker d jumpSeq r c] by blast
  let ?j = "jumped r c (fst dest) (snd dest)"
  have occ: "getCheckerAt s (killedRow ?j) (killedCol ?j) \<noteq> None"
    using isValidJump_midpoint(2) [OF valid] by (simp add: jumped_def add.commute)
  from alt show ?case
  proof
    assume "chain = jumpSeq @ [?j]"
    with occ show ?thesis by simp
  next
    assume deeper: "chain \<in> set (validJumpsFor s checker d (jumpSeq @ [?j]) (fst dest) (snd dest))"
    from validJumpsFor_extends [OF deeper] obtain ext where ch: "chain = (jumpSeq @ [?j]) @ ext"
      by blast
    from "1.IH" [OF dest valid fresh] deeper
    have "\<forall>j \<in> set (drop (length (jumpSeq @ [?j])) chain).
            getCheckerAt s (killedRow j) (killedCol j) \<noteq> None" by simp
    with ch occ show ?thesis by simp
  qed
qed

lemma mapE_total:
  "(\<And>x. x \<in> set xs \<Longrightarrow> \<exists>y. f x = Inr y) \<Longrightarrow> \<exists>ys. mapE f xs = Inr ys"
proof (induction xs)
  case Nil
  then show ?case by simp
next
  case (Cons x xs)
  from Cons.prems obtain y where "f x = Inr y" by auto
  moreover from Cons obtain ys where "mapE f xs = Inr ys" by auto
  ultimately show ?case by simp
qed

lemma collapseJumpSequence_returns:
  assumes "chain \<in> set (validJumpsFor s checker d [] r c)"
  shows "\<exists>m. collapseJumpSequence s chain = Inr m"
proof -
  from validJumpsFor_extends [OF assms] have ne: "chain \<noteq> []" by auto
  from validJumpsFor_occupied [OF assms]
  have "\<And>j. j \<in> set chain \<Longrightarrow> \<exists>x. removedAt s j = Inr x"
    by (auto simp: removedAt_def split: option.splits)
  from mapE_total [of chain "removedAt s", OF this] obtain rs where "mapE (removedAt s) chain = Inr rs"
    by blast
  with ne show ?thesis by (simp add: collapseJumpSequence_def)
qed

lemma validMovesFor_placed:
  assumes "loc (checkers s checker) \<noteq> None"
  shows "\<exists>validMoves. validMovesFor s checker d = Inr validMoves"
proof -
  from assms obtain r c where at: "loc (checkers s checker) = Some (r, c)" by auto
  from mapE_total [of "validJumpsFor s checker d [] r c" "collapseJumpSequence s"]
    collapseJumpSequence_returns
  obtain ms where "mapE (collapseJumpSequence s) (validJumpsFor s checker d [] r c) = Inr ms"
    by blast
  with at show ?thesis by (simp add: validMovesFor_def Let_def)
qed

text \<open>
  C2, as the code has it: \<open>makeMove\<close> returns null when \<open>playerDirection\<close> differs from
  \<open>turnDirection\<close>, for every checker; and for every checker that has been placed (its row
  and col are defined) \<open>validMovesFor\<close> returns its list of moves and \<open>makeMove\<close> returns
  null when no move of the list goes to \<open>(toRow, toCol)\<close>. The state returned with null is
  the state of the call: the same grid, the same checkers, the same dispatched events.
\<close>

theorem makeMove_invalid:
  "(playerDirection \<noteq> turnDirection \<longrightarrow>
      makeMove s checker turnDirection playerDirection toRow toCol = Inr (s, None))
   \<and> (loc (checkers s checker) \<noteq> None \<longrightarrow>
        (\<exists>validMoves. validMovesFor s checker playerDirection = Inr validMoves
           \<and> ((\<forall>m \<in> set validMoves. \<not> (to_col m = toCol \<and> to_row m = toRow)) \<longrightarrow>
                makeMove s checker turnDirection playerDirection toRow toCol = Inr (s, None))))"
proof (intro conjI impI)
  assume "playerDirection \<noteq> turnDirection"
  then show "makeMove s checker turnDirection playerDirection toRow toCol = Inr (s, None)"
    by (simp add: makeMove_def ramificationsOfMove_def)
next
  assume "loc (checkers s checker) \<noteq> None"
  from validMovesFor_placed [OF this]
  obtain validMoves where vm: "validMovesFor s checker playerDirection = Inr validMoves"
    by blast
  have "makeMove s checker turnDirection playerDirection toRow toCol = Inr (s, None)"
    if none: "\<forall>m \<in> set validMoves. \<not> (to_col m = toCol \<and> to_row m = toRow)"
  proof -
    from none have "find (\<lambda>m. to_col m = toCol \<and> to_row m = toRow) validMoves = None"
      by (simp add: find_None_iff)
    with vm show ?thesis
      by (cases "playerDirection = turnDirection")
         (auto simp: makeMove_def ramificationsOfMove_def)
  qed
  with vm show "\<exists>validMoves. validMovesFor s checker playerDirection = Inr validMoves
           \<and> ((\<forall>m \<in> set validMoves. \<not> (to_col m = toCol \<and> to_row m = toRow)) \<longrightarrow>
                makeMove s checker turnDirection playerDirection toRow toCol = Inr (s, None))"
    by blast
qed

theorem makeMove_invalid_witness:
  "makeMove manBoard 0 (-1) 1 7 2 = Inr (manBoard, None)
   \<and> loc (checkers manBoard 0) \<noteq> None
   \<and> validMovesFor manBoard 0 1 =
       Inr [\<lparr>to_col = 0, to_row = 7, remove_list = []\<rparr>, \<lparr>to_col = 2, to_row = 7, remove_list = []\<rparr>]
   \<and> makeMove manBoard 0 1 1 5 2 = Inr (manBoard, None)"
proof -
  have placed: "loc (checkers manBoard 0) \<noteq> None"
    by (simp add: manBoard_def)
  from makeMove_invalid [of 1 "-1" manBoard 0 7 2]
  have a: "makeMove manBoard 0 (-1) 1 7 2 = Inr (manBoard, None)" by simp
  from makeMove_invalid [of 1 1 manBoard 0 5 2] placed
  have b: "makeMove manBoard 0 1 1 5 2 = Inr (manBoard, None)"
    by (simp add: validMovesFor_manBoard)
  from a b placed validMovesFor_manBoard show ?thesis by simp
qed

text \<open>
  C2 as stated fails for a checker that was never placed: on the new 8x8 board, with
  equal directions, \<open>validMovesFor\<close> throws a TypeError for checker 0 (its row and col are
  undefined), so \<open>makeMove\<close> throws and does not return null.
\<close>

theorem makeMove_unplaced_throws:
  "loc (checkers emptyBoard 0) = None
   \<and> validMovesFor emptyBoard 0 1 = Inl TypeError
   \<and> makeMove emptyBoard 0 1 1 3 3 = Inl (TypeError, emptyBoard)
   \<and> makeMove emptyBoard 0 1 1 3 3 \<noteq> Inr (emptyBoard, None)"
  by (simp add: makeMove_def ramificationsOfMove_def validMovesFor_def example_defs)

section \<open>The result of makeMove\<close>

lemma mapE_Inr: "mapE f xs = Inr ys \<Longrightarrow> list_all2 (\<lambda>x y. f x = Inr y) xs ys"
  by (induction xs arbitrary: ys) (auto split: sum.splits)

lemma remove_checkers: "remove s p = Inr s' \<Longrightarrow> checkers s' = checkers s"
  by (auto simp: remove_def dispatchBoardEvent_def split: option.splits if_splits)

lemma removeDead_checkers: "removeDead s xs = Inr s' \<Longrightarrow> checkers s' = checkers s"
proof (induction xs arbitrary: s)
  case Nil
  then show ?case by simp
next
  case (Cons x xs)
  then show ?case by (auto split: sum.splits dest: remove_checkers)
qed

lemma collapseJumpSequence_Inr:
  assumes "collapseJumpSequence s chain = Inr m"
  shows "chain \<noteq> [] \<and> to_col m = col (last chain) \<and> to_row m = row (last chain)
         \<and> list_all2 (\<lambda>x j. removedAt s j = Inr x) (remove_list m) chain"
proof -
  from assms obtain rs where rs: "mapE (removedAt s) chain = Inr rs"
    and m: "m = \<lparr>to_col = col (last chain), to_row = row (last chain), remove_list = rs\<rparr>"
    and ne: "chain \<noteq> []"
    by (auto simp: collapseJumpSequence_def split: if_splits sum.splits)
  from mapE_Inr [OF rs] have "list_all2 (\<lambda>x j. removedAt s j = Inr x) rs chain"
    by (simp add: list_all2_conv_all_nth)
  with m ne show ?thesis by simp
qed

lemma find_append_cases:
  "find P (xs @ ys) = (case find P xs of None \<Rightarrow> find P ys | Some x \<Rightarrow> Some x)"
  by (induction xs) auto

lemma mapE_find:
  assumes "mapE f xs = Inr ys"
    and "\<And>x y. x \<in> set xs \<Longrightarrow> f x = Inr y \<Longrightarrow> P y = Q x"
    and "find P ys = Some y"
  shows "\<exists>x. find Q xs = Some x \<and> f x = Inr y"
  using assms
proof (induction xs arbitrary: ys)
  case Nil
  then show ?case by simp
next
  case (Cons x xs)
  from Cons.prems(1) obtain z zs where fx: "f x = Inr z" and rest: "mapE f xs = Inr zs"
    and ys: "ys = z # zs"
    by (auto split: sum.splits)
  from Cons.prems(2) [of x z] fx have same: "P z = Q x" by simp
  show ?case
  proof (cases "Q x")
    case True
    with same ys Cons.prems(3) fx show ?thesis by simp
  next
    case False
    with same ys Cons.prems(3) have "find P zs = Some y" by simp
    from Cons.IH [OF rest _ this] Cons.prems(2) obtain x' where "find Q xs = Some x'" "f x' = Inr y"
      by auto
    with False show ?thesis by simp
  qed
qed

lemma validMovesFor_Inr:
  assumes "validMovesFor s checker d = Inr moves" and "loc (checkers s checker) = Some (r, c)"
  obtains steps ms where "moves = steps @ ms"
    and "mapE (collapseJumpSequence s) (validJumpsFor s checker d [] r c) = Inr ms"
    and "\<forall>m \<in> set steps. remove_list m = []"
    and "\<And>tr tc. (\<exists>m \<in> set steps. to_col m = tc \<and> to_row m = tr) \<longleftrightarrow>
                 ((tc = c - 1 \<or> tc = c + 1)
                  \<and> isValidLocation s tr tc \<and> isEmptyLocation s tr tc
                  \<and> (tr = r + d \<or> tr = r - d \<and> isKing (checkers s checker)))"
proof -
  from assms obtain ms
    where ms: "mapE (collapseJumpSequence s) (validJumpsFor s checker d [] r c) = Inr ms"
    by (auto simp: validMovesFor_def Let_def split: sum.splits)
  define steps where "steps =
      [\<lparr>to_col = c + i, to_row = r + d, remove_list = []\<rparr>.
         i \<leftarrow> [-1, 0, 1], i \<noteq> 0,
         isValidLocation s (r + d) (c + i) \<and> isEmptyLocation s (r + d) (c + i)]
      @ [\<lparr>to_col = c + i, to_row = r - d, remove_list = []\<rparr>.
         i \<leftarrow> [-1, 0, 1], i \<noteq> 0,
         isValidLocation s (r - d) (c + i) \<and> isEmptyLocation s (r - d) (c + i)
         \<and> isKing (checkers s checker) = True]"
  from assms ms have split: "moves = steps @ ms"
    by (simp add: validMovesFor_def Let_def steps_def)
  have plain: "\<forall>m \<in> set steps. remove_list m = []"
    by (auto simp: steps_def)
  have iff: "(\<exists>m \<in> set steps. to_col m = tc \<and> to_row m = tr) \<longleftrightarrow>
                 ((tc = c - 1 \<or> tc = c + 1)
                  \<and> isValidLocation s tr tc \<and> isEmptyLocation s tr tc
                  \<and> (tr = r + d \<or> tr = r - d \<and> isKing (checkers s checker)))" for tr tc
    by (auto simp: steps_def)
  show ?thesis by (rule that [OF split ms plain iff])
qed

text \<open>
  C3: when \<open>makeMove\<close> returns a result, \<open>from_row\<close> and \<open>from_col\<close> are the checker's row and
  col before the call, \<open>to_row\<close> and \<open>to_col\<close> the destination asked for, and \<open>made_king\<close> is
  true exactly when the checker was no king before the call and is one after it. The
  list under the key \<open>remove\<close> is that of the first valid move to the destination. When
  a simple step goes there (one column aside, on the row ahead, or behind for a king,
  valid and empty), the list is empty. Otherwise the chosen chain is the first chain of
  \<open>validJumpsFor\<close> that lands on the destination, it has at least one jump, and the list
  holds, in the chain's order, one entry for each jump: the killed square with the colour
  and king flag of the checker on that square before the call.
\<close>

theorem makeMove_result:
  assumes "makeMove s checker turnDirection playerDirection toRow toCol = Inr (s', Some res)"
  shows "loc (checkers s checker) = Some (from_row res, from_col res)
       \<and> to_row res = toRow \<and> to_col res = toCol
       \<and> made_king res = (\<not> isKing (checkers s checker) \<and> isKing (checkers s' checker))
       \<and> (\<exists>validMoves. validMovesFor s checker playerDirection = Inr validMoves
             \<and> find (\<lambda>m. to_col m = toCol \<and> to_row m = toRow) validMoves
                 = Some \<lparr>to_col = toCol, to_row = toRow, remove_list = remove_list res\<rparr>)
       \<and> (if (toCol = from_col res - 1 \<or> toCol = from_col res + 1)
              \<and> isValidLocation s toRow toCol \<and> isEmptyLocation s toRow toCol
              \<and> (toRow = from_row res + playerDirection
                  \<or> toRow = from_row res - playerDirection \<and> isKing (checkers s checker))
           then remove_list res = []
           else (\<exists>chain. chain \<noteq> []
                  \<and> find (\<lambda>ch. col (last ch) = toCol \<and> row (last ch) = toRow)
                       (validJumpsFor s checker playerDirection [] (from_row res) (from_col res))
                     = Some chain
                  \<and> list_all2
                      (\<lambda>x j. r_row x = killedRow j \<and> r_col x = killedCol j
                             \<and> (\<exists>p. getCheckerAt s (killedRow j) (killedCol j) = Some p
                                    \<and> r_color x = color (checkers s p)
                                    \<and> r_isKing x = isKing (checkers s p)))
                      (remove_list res) chain))"
proof -
  from assms obtain m fr fc s1 moves
    where moves: "validMovesFor s checker playerDirection = Inr moves"
      and found: "find (\<lambda>m. to_col m = toCol \<and> to_row m = toRow) moves = Some m"
      and at: "loc (checkers s checker) = Some (fr, fc)"
      and moved: "moveTo s checker (to_row m) (to_col m) = Inr s1"
      and dead: "removeDead s1 (remove_list m) = Inr s'"
      and res: "res = move.extend m (result.fields fc fr
                        (\<not> isKing (checkers s checker) \<and> isKing (checkers s1 checker)))"
    by (auto simp: makeMove_def ramificationsOfMove_def Let_def
             split: sum.splits option.splits if_splits)
  from found have dest: "to_col m = toCol" "to_row m = toRow"
    by (auto simp: find_Some_iff)
  from removeDead_checkers [OF dead] have same: "checkers s' = checkers s1" .
  from res have fields: "from_row res = fr" "from_col res = fc" "to_row res = to_row m"
    "to_col res = to_col m" "remove_list res = remove_list m"
    "made_king res = (\<not> isKing (checkers s checker) \<and> isKing (checkers s1 checker))"
    by (simp_all add: move.defs result.defs)
  from dest fields(5) have "m = \<lparr>to_col = toCol, to_row = toRow, remove_list = remove_list res\<rparr>"
    by simp
  with moves found have chosen: "\<exists>validMoves. validMovesFor s checker playerDirection = Inr validMoves
             \<and> find (\<lambda>m. to_col m = toCol \<and> to_row m = toRow) validMoves
                 = Some \<lparr>to_col = toCol, to_row = toRow, remove_list = remove_list res\<rparr>"
    by simp
  let ?step = "(toCol = fc - 1 \<or> toCol = fc + 1)
              \<and> isValidLocation s toRow toCol \<and> isEmptyLocation s toRow toCol
              \<and> (toRow = fr + playerDirection
                  \<or> toRow = fr - playerDirection \<and> isKing (checkers s checker))"
  let ?R = "\<lambda>x j. r_row x = killedRow j \<and> r_col x = killedCol j
                        \<and> (\<exists>p. getCheckerAt s (killedRow j) (killedCol j) = Some p
                               \<and> r_color x = color (checkers s p)
                               \<and> r_isKing x = isKing (checkers s p))"
  let ?P = "\<lambda>m. to_col m = toCol \<and> to_row m = toRow"
  let ?Q = "\<lambda>ch. col (last ch) = toCol \<and> row (last ch) = toRow"
  have captured: "if ?step then remove_list m = []
        else (\<exists>chain. chain \<noteq> []
                \<and> find ?Q (validJumpsFor s checker playerDirection [] fr fc) = Some chain
                \<and> list_all2 ?R (remove_list m) chain)"
  proof (rule validMovesFor_Inr [OF moves at])
    fix steps ms
    assume split: "moves = steps @ ms"
      and ms: "mapE (collapseJumpSequence s) (validJumpsFor s checker playerDirection [] fr fc) = Inr ms"
      and plain: "\<forall>m \<in> set steps. remove_list m = []"
      and step_all: "\<And>tr tc. (\<exists>m \<in> set steps. to_col m = tc \<and> to_row m = tr) \<longleftrightarrow>
                 ((tc = fc - 1 \<or> tc = fc + 1)
                  \<and> isValidLocation s tr tc \<and> isEmptyLocation s tr tc
                  \<and> (tr = fr + playerDirection
                      \<or> tr = fr - playerDirection \<and> isKing (checkers s checker)))"
    note step_iff = step_all [of toCol toRow]
    show ?thesis
    proof (cases ?step)
      case True
    with step_iff have "\<exists>m \<in> set steps. ?P m" by (simp only: simp_thms)
    then have "find ?P steps \<noteq> None" by (auto simp: find_None_iff)
    then obtain m' where m': "find ?P steps = Some m'" by blast
    then have "find ?P (steps @ ms) = Some m'" by (simp only: find_append_cases option.case)
    with found split have "m' = m" by simp
    with m' have "m \<in> set steps" by (auto simp only: find_Some_iff in_set_conv_nth)
    with plain have none: "remove_list m = []" by blast
    show ?thesis unfolding if_P [OF True] by (rule none)
  next
    case False
    with step_iff have "\<not> (\<exists>m \<in> set steps. ?P m)" by (simp only: simp_thms)
    then have "find ?P steps = None" by (auto simp: find_None_iff)
    then have "find ?P (steps @ ms) = find ?P ms" by (simp only: find_append_cases option.case)
    with found split have inms: "find ?P ms = Some m" by simp
    have pq: "?P y = ?Q x"
      if "x \<in> set (validJumpsFor s checker playerDirection [] fr fc)"
        and "collapseJumpSequence s x = Inr y" for x y
      using collapseJumpSequence_Inr [OF that(2)] by simp
    from mapE_find [where f = "collapseJumpSequence s" and P = ?P and Q = ?Q, OF ms pq inms]
    obtain chain where first: "find ?Q (validJumpsFor s checker playerDirection [] fr fc) = Some chain"
      and coll: "collapseJumpSequence s chain = Inr m"
      by blast
    from collapseJumpSequence_Inr [OF coll]
    have ne: "chain \<noteq> []"
      and all: "list_all2 (\<lambda>x j. removedAt s j = Inr x) (remove_list m) chain"
      by simp_all
    have "list_all2 ?R (remove_list m) chain"
      by (rule list_all2_mono [OF all]) (auto simp: removedAt_def split: option.splits)
    with ne first have ex: "\<exists>chain. chain \<noteq> []
                \<and> find ?Q (validJumpsFor s checker playerDirection [] fr fc) = Some chain
                \<and> list_all2 ?R (remove_list m) chain"
      by blast
    show ?thesis unfolding if_not_P [OF False] by (rule ex)
    qed
  qed
  show ?thesis
    unfolding fields(1,2,5)
  proof (intro conjI)
    show "loc (checkers s checker) = Some (fr, fc)" by (rule at)
    show "to_row res = toRow" using fields(3) dest by simp
    show "to_col res = toCol" using fields(4) dest by simp
    show "made_king res = (\<not> isKing (checkers s checker) \<and> isKing (checkers s' checker))"
      using fields(6) same by simp
    show "\<exists>validMoves. validMovesFor s checker playerDirection = Inr validMoves
             \<and> find (\<lambda>m. to_col m = toCol \<and> to_row m = toRow) validMoves
                 = Some \<lparr>to_col = toCol, to_row = toRow, remove_list = remove_list m\<rparr>"
      using chosen unfolding fields(5) .
    show "if ?step then remove_list m = []
        else (\<exists>chain. chain \<noteq> []
                \<and> find ?Q (validJumpsFor s checker playerDirection [] fr fc) = Some chain
                \<and> list_all2 ?R (remove_list m) chain)"
      by (rule captured)
  qed
qed

theorem makeMove_result_witness:
  "\<exists>s' res. makeMove jumpBoard 0 1 1 6 7 = Inr (s', Some res)
     \<and> loc (checkers jumpBoard 0) = Some (from_row res, from_col res)
     \<and> from_row res = 2 \<and> from_col res = 3 \<and> to_row res = 6 \<and> to_col res = 7
     \<and> made_king res = False
     \<and> remove_list res =
          [\<lparr>r_row = 3, r_col = 4, r_color = ''black'', r_isKing = False\<rparr>,
           \<lparr>r_row = 5, r_col = 6, r_color = ''black'', r_isKing = False\<rparr>]
     \<and> find (\<lambda>ch. col (last ch) = 7 \<and> row (last ch) = 6) (validJumpsFor jumpBoard 0 1 [] 2 3)
         = Some [\<lparr>killedCol = 4, killedRow = 3, col = 5, row = 4\<rparr>,
                 \<lparr>killedCol = 6, killedRow = 5, col = 7, row = 6\<rparr>]
     \<and> getCheckerAt s' 3 4 = None \<and> getCheckerAt s' 5 6 = None \<and> getCheckerAt s' 6 7 = Some 0"
proof -
  obtain s' res where run: "makeMove jumpBoard 0 1 1 6 7 = Inr (s', Some res)"
    and facts: "from_row res = 2" "from_col res = 3" "made_king res = False"
      "remove_list res =
          [\<lparr>r_row = 3, r_col = 4, r_color = ''black'', r_isKing = False\<rparr>,
           \<lparr>r_row = 5, r_col = 6, r_color = ''black'', r_isKing = False\<rparr>]"
      "getCheckerAt s' 3 4 = None" "getCheckerAt s' 5 6 = None" "getCheckerAt s' 6 7 = Some 0"
    unfolding makeMove_def ramificationsOfMove_def validMovesFor_jumpBoard
    by (simp add: board_defs example_defs jumpBoard_def move.defs result.defs)
  have first: "find (\<lambda>ch. col (last ch) = 7 \<and> row (last ch) = 6) (validJumpsFor jumpBoard 0 1 [] 2 3)
         = Some [\<lparr>killedCol = 4, killedRow = 3, col = 5, row = 4\<rparr>,
                 \<lparr>killedCol = 6, killedRow = 5, col = 7, row = 6\<rparr>]"
    by (simp add: validJumpsFor_jumpBoard)
  from makeMove_result [OF run] have "loc (checkers jumpBoard 0) = Some (from_row res, from_col res)"
    "to_row res = 6" "to_col res = 7"
    by simp_all
  with run facts first show ?thesis by simp
qed

end
